theory Spec2Isabelle
  imports Main
begin

section \<open>Text primitives used by the transfer pipeline\<close>

text \<open>
  Python strings are modelled as \<open>string\<close>, one \<open>char\<close> per character, so
  \<open>length\<close> is Python's \<open>len\<close> for texts whose code points are below 256.
  \<open>is_space\<close> is \<open>str.isspace\<close> (and the regular expression class \<open>\s\<close>)
  on that range: TAB, LF, VT, FF, CR, FS, GS, RS, US, SPACE, NEL and NBSP.
\<close>

definition is_space :: "char \<Rightarrow> bool" where
  "is_space c = ((of_char c :: nat) \<in> {9, 10, 11, 12, 13, 28, 29, 30, 31, 32, 133, 160})"

definition is_terminator :: "char \<Rightarrow> bool" where
  "is_terminator c = (c = CHR ''.'' \<or> c = CHR ''!'' \<or> c = CHR ''?'')"

text \<open>
  \<open>re.split(r"(?<=[.!?])\s+", text)\<close>: scanning left to right, a separator is a
  maximal run of whitespace whose preceding character is one of \<open>.\<close>, \<open>!\<close>, \<open>?\<close>.
  \<open>after_term\<close> says whether the character just read is such a terminator,
  \<open>cur\<close> is the piece collected so far. A separator at the very end leaves a
  final empty piece, as \<open>re.split\<close> does.
\<close>

function re_split_sentences :: "bool \<Rightarrow> string \<Rightarrow> string \<Rightarrow> string list" where
  "re_split_sentences after_term cur [] = [cur]"
| "re_split_sentences after_term cur (c # cs) =
     (if after_term \<and> is_space c
      then cur # re_split_sentences False [] (dropWhile is_space cs)
      else re_split_sentences (is_terminator c) (cur @ [c]) cs)"
  by pat_completeness auto
termination
  by (relation "measure (\<lambda>(a, cur, cs). length cs)")
     (auto simp: length_dropWhile_le less_Suc_eq_le)

text \<open>\<open>sentence.split()\<close>: the maximal runs of non-whitespace characters.\<close>

fun str_split :: "string \<Rightarrow> string \<Rightarrow> string list" where
  "str_split cur [] = (if cur = [] then [] else [cur])"
| "str_split cur (c # cs) =
     (if is_space c then (if cur = [] then str_split [] cs else cur # str_split [] cs)
      else str_split (cur @ [c]) cs)"

text \<open>Decimal rendering of a number inside an f-string.\<close>

fun str_nat :: "nat \<Rightarrow> string" where
  "str_nat n =
     (if n < 10 then [char_of (48 + n)]
      else str_nat (n div 10) @ [char_of (48 + n mod 10)])"

section \<open>Segmenter: \<open>TransferManager._split_text\<close>\<close>

text \<open>
  The loop state is the pair \<open>(chunks, current_chunk)\<close>. The word branch
  (transfer.py lines 214 to 219) and the sentence branch (lines 220 to 225) have the
  same body, applied to a word or to a whole sentence: \<open>add_piece\<close>.
\<close>

fun add_piece :: "int \<Rightarrow> string list \<times> string \<Rightarrow> string \<Rightarrow> string list \<times> string" where
  "add_piece max_length (chunks, current_chunk) piece =
     (if int (length current_chunk) + int (length piece) + 1 \<le> max_length - 10
      then (chunks, current_chunk @ (if current_chunk \<noteq> [] then '' '' else []) @ piece)
      else ((if current_chunk \<noteq> [] then chunks @ [current_chunk @ ''...''] else chunks),
            ''...'' @ piece))"

definition add_sentence :: "int \<Rightarrow> string list \<times> string \<Rightarrow> string \<Rightarrow> string list \<times> string" where
  "add_sentence max_length st sentence =
     (if int (length sentence) > max_length
      then foldl (add_piece max_length) st (str_split [] sentence)
      else add_piece max_length st sentence)"

text \<open>Lines 200 to 228: the chunks before the positional markers are added.\<close>

definition split_chunks :: "string \<Rightarrow> int \<Rightarrow> string list" where
  "split_chunks text max_length =
     (if int (length text) \<le> max_length then [text]
      else (case foldl (add_sentence max_length) ([], []) (re_split_sentences False [] text) of
              (chunks, current_chunk) \<Rightarrow>
                if current_chunk \<noteq> [] then chunks @ [current_chunk] else chunks))"

text \<open>Lines 231 to 233: the thread indicators \<open>[i/N]\<close>.\<close>

definition add_markers :: "string list \<Rightarrow> string list" where
  "add_markers chunks =
     (if length chunks > 1
      then map (\<lambda>(i, chunk). ''['' @ str_nat (i + 1) @ ''/'' @ str_nat (length chunks) @ ''] '' @ chunk)
             (enumerate 0 chunks)
      else chunks)"

definition split_text :: "string \<Rightarrow> int \<Rightarrow> string list" where
  "split_text text max_length = add_markers (split_chunks text max_length)"

section \<open>Content Normalizer: \<open>TransferManager._html_to_text\<close>\<close>

text \<open>
  \<open>BeautifulSoup(html, "html.parser")\<close> is a third-party parser; the function works on
  the tree it returns. The tree is a list of nodes: \<open>Text\<close> is a string of the
  document (the strings \<open>get_text\<close> collects), \<open>Elem\<close> is a tag with its name and
  children. The parser itself is the parameter \<open>parse_html\<close> of the clients below.
\<close>

datatype node = Text string | Elem string "node list"

definition newline :: char where
  "newline = CHR 0x0A"

text \<open>Lines 182 and 183: every \<open>br\<close> tag is replaced by a newline string.\<close>

fun replace_br :: "node \<Rightarrow> node" where
  "replace_br (Text s) = Text s"
| "replace_br (Elem name kids) =
     (if name = ''br'' then Text [newline] else Elem name (map replace_br kids))"

text \<open>Lines 186 and 187: a string of two newlines is inserted after every \<open>p\<close> tag.\<close>

fun insert_after_p :: "node \<Rightarrow> node list" where
  "insert_after_p (Text s) = [Text s]"
| "insert_after_p (Elem name kids) =
     Elem name (concat (map insert_after_p kids))
       # (if name = ''p'' then [Text [newline, newline]] else [])"

text \<open>Line 190: \<open>get_text\<close> concatenates the strings of the tree in document order.\<close>

fun get_text :: "node \<Rightarrow> string" where
  "get_text (Text s) = s"
| "get_text (Elem name kids) = concat (map get_text kids)"

text \<open>
  Line 193, \<open>re.sub(r"\n{3,}", "\n\n", text)\<close>: a maximal run of three or more
  newlines becomes two, a run of one or two stays. \<open>n\<close> counts the newlines of the
  run being read.
\<close>

fun sub_newlines :: "nat \<Rightarrow> string \<Rightarrow> string" where
  "sub_newlines n [] = replicate (min n 2) newline"
| "sub_newlines n (c # cs) =
     (if c = newline then sub_newlines (Suc n) cs
      else replicate (min n 2) newline @ c # sub_newlines 0 cs)"

text \<open>Line 194: \<open>text.strip()\<close>.\<close>

definition strip :: "string \<Rightarrow> string" where
  "strip s = rev (dropWhile is_space (rev (dropWhile is_space s)))"

definition html_to_text :: "(string \<Rightarrow> node list) \<Rightarrow> string \<Rightarrow> string" where
  "html_to_text parse html =
     (let soup = parse html;
          soup = map replace_br soup;
          soup = concat (map insert_after_p soup);
          text = concat (map get_text soup);
          text = sub_newlines 0 text
      in strip text)"

section \<open>Data model (models.py) and the collaborators\<close>

datatype error = KeyError string | ClientError string | OSError string

text \<open>
  A media attachment is a dictionary; the keys the code reads are \<open>type\<close>, \<open>url\<close>
  and \<open>description\<close>. \<open>None\<close> is a missing key (for \<open>description\<close>, also a null
  value): \<open>attachment["type"]\<close> and \<open>attachment["url"]\<close> raise KeyError then.
\<close>

record attachment =
  att_type :: "string option"
  att_url :: "string option"
  att_description :: "string option"

record mastodon_post =
  post_id :: string
  content :: string
  created_at :: int
  url :: string
  in_reply_to_id :: "string option"
  reblog :: "string option"
  media_attachments :: "attachment list"
  mentions :: "string list"
  tags :: "string list"
  visibility :: string
  sensitive :: bool
  spoiler_text :: string

type_synonym facet = "nat \<times> nat \<times> string"

record post_ref =
  uri :: string
  cid :: string

record reply_ref =
  root :: post_ref
  parent :: post_ref

record image =
  image_blob :: string
  alt :: "string option"

record embed =
  embed_type :: string
  images :: "image list"

record bluesky_post =
  bsky_text :: string
  bsky_created_at :: int
  facets :: "facet list"
  embed :: "embed option"
  reply :: "reply_ref option"

record transfer_state =
  last_mastodon_id :: "string option"
  transferred_ids :: "string set"
  last_updated :: int

text \<open>
  The state file: absent; present but such that opening it, \<open>json.load\<close> or
  \<open>TransferState(**data)\<close> raises; or holding a state that loads.
\<close>

datatype file_status = Absent | Unloadable error | Stored transfer_state

datatype message =
    Fetching_posts
  | No_posts_found
  | Found_posts nat
  | Load_warning error
  | Would_transfer string string
  | Error_transferring string error

text \<open>
  Everything outside the process is the \<open>world\<close>: what was printed on the console,
  the state file, and the calls received so far by the two network clients (a
  \<open>create_post\<close> call is logged with the request and what the client answered).
\<close>

record world =
  console :: "message list"
  state_file :: file_status
  download_calls :: "string list"
  upload_calls :: "string list"
  post_calls :: "(bluesky_post \<times> (error + post_ref)) list"

text \<open>
  The collaborators (mastodon.py, bluesky.py, bs4, the file system and the clock) are
  parameters. An answer may depend on everything that happened before, which the world
  records. \<open>write_state\<close> answers \<open>None\<close> when the file is written, or the exception
  and what is left of the file.
\<close>

record clients =
  parse_html :: "string \<Rightarrow> node list"
  create_rich_text :: "string \<Rightarrow> error + (string \<times> facet list)"
  download_media :: "world \<Rightarrow> string \<Rightarrow> error + string"
  upload_image :: "world \<Rightarrow> string \<Rightarrow> error + string"
  create_post :: "world \<Rightarrow> bluesky_post \<Rightarrow> error + post_ref"
  write_state :: "world \<Rightarrow> transfer_state \<Rightarrow> (error \<times> file_status) option"
  now :: "world \<Rightarrow> int"

record stats =
  processed :: nat
  transferred :: nat
  skipped :: nat
  errors :: nat

section \<open>Transfer State Store: \<open>_load_state\<close> and \<open>_save_state\<close>\<close>

definition fresh_state :: "clients \<Rightarrow> world \<Rightarrow> transfer_state" where
  "fresh_state env w =
     \<lparr>last_mastodon_id = None, transferred_ids = {}, last_updated = now env w\<rparr>"

definition load_state :: "clients \<Rightarrow> world \<Rightarrow> transfer_state \<times> world" where
  "load_state env w =
     (case state_file w of
        Absent \<Rightarrow> (fresh_state env w, w)
      | Unloadable e \<Rightarrow>
          (let w1 = w\<lparr>console := console w @ [Load_warning e]\<rparr>
           in (fresh_state env w1, w1))
      | Stored s \<Rightarrow> (s, w))"

definition save_state :: "clients \<Rightarrow> bool \<Rightarrow> transfer_state \<Rightarrow> world \<Rightarrow> (error + unit) \<times> world" where
  "save_state env dry_run s w =
     (if \<not> dry_run
      then (case write_state env w s of
              None \<Rightarrow> (Inr (), w\<lparr>state_file := Stored s\<rparr>)
            | Some (e, f) \<Rightarrow> (Inl e, w\<lparr>state_file := f\<rparr>))
      else (Inr (), w))"

section \<open>Media Resolver: \<open>_create_media_embed\<close>\<close>

definition alt_text :: "attachment \<Rightarrow> string option" where
  "alt_text a =
     (case att_description a of
        None \<Rightarrow> None
      | Some d \<Rightarrow> if d \<noteq> [] then Some (take 1000 d) else None)"

text \<open>The loop of lines 241 to 254, with the list \<open>images\<close> built so far.\<close>

fun embed_images :: "clients \<Rightarrow> attachment list \<Rightarrow> image list \<Rightarrow> world \<Rightarrow> (error + image list) \<times> world" where
  "embed_images env [] imgs w = (Inr imgs, w)"
| "embed_images env (a # rest) imgs w =
     (case att_type a of
        None \<Rightarrow> (Inl (KeyError ''type''), w)
      | Some t \<Rightarrow>
          if t = ''image''
          then (case att_url a of
                  None \<Rightarrow> (Inl (KeyError ''url''), w)
                | Some u \<Rightarrow>
                    (let w1 = w\<lparr>download_calls := download_calls w @ [u]\<rparr>
                     in case download_media env w u of
                          Inl e \<Rightarrow> (Inl e, w1)
                        | Inr image_data \<Rightarrow>
                            (let w2 = w1\<lparr>upload_calls := upload_calls w1 @ [image_data]\<rparr>
                             in case upload_image env w1 image_data of
                                  Inl e \<Rightarrow> (Inl e, w2)
                                | Inr blob \<Rightarrow>
                                    embed_images env rest
                                      (imgs @ [\<lparr>image_blob = blob, alt = alt_text a\<rparr>]) w2)))
          else embed_images env rest imgs w)"

definition create_media_embed :: "clients \<Rightarrow> attachment list \<Rightarrow> world \<Rightarrow> (error + embed option) \<times> world" where
  "create_media_embed env attachments w =
     (case embed_images env attachments [] w of
        (Inl e, w1) \<Rightarrow> (Inl e, w1)
      | (Inr imgs, w1) \<Rightarrow>
          (Inr (if imgs \<noteq> []
                then Some \<lparr>embed_type = ''app.bsky.embed.images'', images = imgs\<rparr>
                else None), w1))"

section \<open>Thread Builder: \<open>_transfer_post\<close>\<close>

text \<open>Lines 127 to 131: the text of the post, with the content warning.\<close>

definition post_text :: "clients \<Rightarrow> mastodon_post \<Rightarrow> string" where
  "post_text env p =
     (let text = html_to_text (parse_html env) (content p)
      in if spoiler_text p \<noteq> []
         then ''CW: '' @ spoiler_text p @ [newline, newline] @ text
         else text)"

text \<open>Lines 137 to 139: the embed, from the first four attachments.\<close>

definition resolve_media :: "clients \<Rightarrow> bool \<Rightarrow> attachment list \<Rightarrow> world \<Rightarrow> (error + embed option) \<times> world" where
  "resolve_media env dry_run attachments w =
     (if attachments \<noteq> [] \<and> \<not> dry_run
      then create_media_embed env (take 4 attachments) w
      else (Inr None, w))"

text \<open>
  Lines 159 to 174: the reply reference for the next request, from the index \<open>i\<close> of
  the request just created, the number \<open>n\<close> of chunks and the reference \<open>r\<close> returned.
\<close>

definition next_parent_ref :: "nat \<Rightarrow> nat \<Rightarrow> reply_ref option \<Rightarrow> post_ref \<Rightarrow> reply_ref option" where
  "next_parent_ref i n parent_ref r =
     (if i = 0 \<and> n > 1 then Some \<lparr>root = r, parent = r\<rparr>
      else (case parent_ref of
              Some pr \<Rightarrow> Some (pr\<lparr>parent := r\<rparr>)
            | None \<Rightarrow> None))"

text \<open>
  The loop of lines 143 to 174 over the chunks still to post, \<open>i\<close> being the index of
  the first of them and \<open>n\<close> the number of all chunks.
\<close>

fun create_posts :: "clients \<Rightarrow> mastodon_post \<Rightarrow> embed option \<Rightarrow> nat \<Rightarrow> nat \<Rightarrow> reply_ref option
    \<Rightarrow> string list \<Rightarrow> world \<Rightarrow> (error + unit) \<times> world" where
  "create_posts env p emb n i parent_ref [] w = (Inr (), w)"
| "create_posts env p emb n i parent_ref (chunk # rest) w =
     (case create_rich_text env chunk of
        Inl e \<Rightarrow> (Inl e, w)
      | Inr (txt, fs) \<Rightarrow>
          (let bluesky_post =
                 \<lparr>bsky_text = txt, bsky_created_at = created_at p, facets = fs,
                  embed = (if i = 0 then emb else None), reply = parent_ref\<rparr>;
               result = create_post env w bluesky_post;
               w1 = w\<lparr>post_calls := post_calls w @ [(bluesky_post, result)]\<rparr>
           in case result of
                Inl e \<Rightarrow> (Inl e, w1)
              | Inr r \<Rightarrow>
                  create_posts env p emb n (Suc i) (next_parent_ref i n parent_ref r) rest w1))"

definition transfer_post :: "clients \<Rightarrow> bool \<Rightarrow> mastodon_post \<Rightarrow> world \<Rightarrow> (error + unit) \<times> world" where
  "transfer_post env dry_run p w =
     (let posts_to_create = split_text (post_text env p) 300
      in case resolve_media env dry_run (media_attachments p) w of
           (Inl e, w1) \<Rightarrow> (Inl e, w1)
         | (Inr emb, w1) \<Rightarrow>
             create_posts env p emb (length posts_to_create) 0 None posts_to_create w1)"

section \<open>Transfer Orchestrator: \<open>transfer_posts\<close>\<close>

text \<open>The body of the loop, lines 95 to 118, on the statistics, the state and the world.\<close>

definition process_post :: "clients \<Rightarrow> bool \<Rightarrow> bool \<Rightarrow> stats \<times> transfer_state \<times> world \<Rightarrow> mastodon_post
    \<Rightarrow> stats \<times> transfer_state \<times> world" where
  "process_post env dry_run skip_existing acc p =
     (case acc of (st0, s, w) \<Rightarrow>
        (let st = st0\<lparr>processed := processed st0 + 1\<rparr>
         in if skip_existing \<and> post_id p \<in> transferred_ids s
            then (st\<lparr>skipped := skipped st + 1\<rparr>, s, w)
            else if dry_run
            then (st\<lparr>transferred := transferred st + 1\<rparr>, s,
                  w\<lparr>console := console w @ [Would_transfer (post_id p) (take 50 (content p))]\<rparr>)
            else (case transfer_post env dry_run p w of
                    (Inl e, w1) \<Rightarrow>
                      (st\<lparr>errors := errors st + 1\<rparr>, s,
                       w1\<lparr>console := console w1 @ [Error_transferring (post_id p) e]\<rparr>)
                  | (Inr u, w1) \<Rightarrow>
                      (let s1 = s\<lparr>transferred_ids := insert (post_id p) (transferred_ids s),
                                  last_mastodon_id := Some (post_id p),
                                  last_updated := now env w1\<rparr>
                       in case save_state env dry_run s1 w1 of
                            (Inl e, w2) \<Rightarrow>
                              (st\<lparr>errors := errors st + 1\<rparr>, s1,
                               w2\<lparr>console := console w2 @ [Error_transferring (post_id p) e]\<rparr>)
                          | (Inr u2, w2) \<Rightarrow>
                              (st\<lparr>transferred := transferred st + 1\<rparr>, s1, w2)))))"

definition zero_stats :: stats where
  "zero_stats = \<lparr>processed = 0, transferred = 0, skipped = 0, errors = 0\<rparr>"

text \<open>
  \<open>transfer_posts\<close> on the list \<open>fetched\<close> that \<open>get_posts\<close> returned, from the
  state \<open>s\<close> of the manager: the statistics returned, the state and the world after.
\<close>

definition transfer_posts :: "clients \<Rightarrow> bool \<Rightarrow> bool \<Rightarrow> mastodon_post list \<Rightarrow> transfer_state \<Rightarrow> world
    \<Rightarrow> stats \<times> transfer_state \<times> world" where
  "transfer_posts env dry_run skip_existing fetched s w =
     (let w0 = w\<lparr>console := console w @ [Fetching_posts]\<rparr>
      in if fetched = []
         then (zero_stats, s, w0\<lparr>console := console w0 @ [No_posts_found]\<rparr>)
         else foldl (process_post env dry_run skip_existing)
                (zero_stats, s, w0\<lparr>console := console w0 @ [Found_posts (length fetched)]\<rparr>)
                (rev fetched))"

text \<open>
  A run of the tool: the manager is constructed, which loads the state (line 30), and
  \<open>transfer_posts\<close> is called once.
\<close>

definition run_transfer :: "clients \<Rightarrow> bool \<Rightarrow> bool \<Rightarrow> mastodon_post list \<Rightarrow> world
    \<Rightarrow> stats \<times> transfer_state \<times> world" where
  "run_transfer env dry_run skip_existing fetched w =
     (case load_state env w of (s, w1) \<Rightarrow> transfer_posts env dry_run skip_existing fetched s w1)"

section \<open>Example collaborators\<close>

text \<open>
  Collaborators that always answer, used to run the model on concrete inputs: the parser
  returns the body as one string, the media calls return what they are given, the
  destination names each post after its text and the number of earlier calls.
\<close>

definition ok_clients :: clients where
  "ok_clients =
     \<lparr>parse_html = (\<lambda>h. [Text h]),
      create_rich_text = (\<lambda>t. Inr (t, [])),
      download_media = (\<lambda>w u. Inr u),
      upload_image = (\<lambda>w d. Inr d),
      create_post = (\<lambda>w b. Inr \<lparr>uri = bsky_text b, cid = str_nat (length (post_calls w))\<rparr>),
      write_state = (\<lambda>w s. None),
      now = (\<lambda>w. 0)\<rparr>"

text \<open>The same, with a destination that rejects every post.\<close>

definition rejecting_clients :: clients where
  "rejecting_clients = ok_clients\<lparr>create_post := (\<lambda>w b. Inl (ClientError ''rejected''))\<rparr>"

definition empty_world :: world where
  "empty_world =
     \<lparr>console = [], state_file = Absent, download_calls = [], upload_calls = [], post_calls = []\<rparr>"

definition simple_post :: "string \<Rightarrow> int \<Rightarrow> string \<Rightarrow> mastodon_post" where
  "simple_post i t body =
     \<lparr>post_id = i, content = body, created_at = t, url = [], in_reply_to_id = None,
      reblog = None, media_attachments = [], mentions = [], tags = [],
      visibility = ''public'', sensitive = False, spoiler_text = []\<rparr>"

text \<open>A parser that answers the tree of two paragraphs, Hello and World.\<close>

definition two_paragraphs :: "string \<Rightarrow> node list" where
  "two_paragraphs h = [Elem ''p'' [Text ''Hello''], Elem ''p'' [Text ''World'']]"

text \<open>The test of line 242, and an attachment with a type and a URL.\<close>

definition is_image :: "attachment \<Rightarrow> bool" where
  "is_image a = (att_type a = Some ''image'')"


text \<open>The \<open>create_post\<close> calls made between two worlds.\<close>

definition new_posts :: "world \<Rightarrow> world \<Rightarrow> (bluesky_post \<times> (error + post_ref)) list" where
  "new_posts w w' = drop (length (post_calls w)) (post_calls w')"

text \<open>
  A run of logged calls is \<open>linked\<close> from the root \<open>r0\<close> and the parent \<open>rp\<close> when
  each request replies to the root \<open>r0\<close> and to the reference answered to the request
  before it (\<open>rp\<close> for the first), and nothing follows a call that failed.
\<close>

fun linked :: "post_ref \<Rightarrow> post_ref \<Rightarrow> (bluesky_post \<times> (error + post_ref)) list \<Rightarrow> bool" where
  "linked r0 rp [] = True"
| "linked r0 rp ((req, res) # rest) =
     (reply req = Some \<lparr>root = r0, parent = rp\<rparr>
      \<and> (case res of Inr r \<Rightarrow> linked r0 r rest | Inl e \<Rightarrow> rest = []))"

text \<open>A post of three chunks: a short sentence, a long one, and a long word.\<close>

definition long_text :: string where
  "long_text = ''Hi. '' @ replicate 297 CHR ''a'' @ ''. '' @ replicate 298 CHR ''b''"

definition long_post :: mastodon_post where
  "long_post = simple_post ''7'' 5 long_text"

text \<open>The identifiers a later run finds in the state file.\<close>

definition stored_ids :: "world \<Rightarrow> string set" where
  "stored_ids w = (case state_file w of Stored s \<Rightarrow> transferred_ids s | Absent \<Rightarrow> {} | Unloadable e \<Rightarrow> {})"



section \<open>Segmenter: the length budget\<close>

lemma re_split_no_space:
  "\<forall>c \<in> set cs. \<not> is_space c \<Longrightarrow> re_split_sentences a cur cs = [cur @ cs]"
  by (induction cs arbitrary: a cur) auto

lemma is_space_a: "\<not> is_space CHR ''a''"
  by (simp add: is_space_def)

lemma re_split_hi_word:
  "re_split_sentences False [] (''Hi. '' @ replicate n CHR ''a'') = [''Hi.'', replicate n CHR ''a'']"
proof -
  have "dropWhile is_space (replicate n CHR ''a'') = replicate n CHR ''a''"
    by (cases n) (simp_all add: is_space_a)
  moreover have "re_split_sentences False [] (replicate n CHR ''a'') = [replicate n CHR ''a'']"
    using re_split_no_space [of "replicate n CHR ''a''" False "[]"] by (simp add: is_space_a)
  ultimately show ?thesis
    by (simp add: is_space_def is_terminator_def)
qed

text \<open>
  C1. The claim is that every chunk of \<open>_split_text\<close>, measured before the \<open>[i/N]\<close>
  marker is added, has length at most the budget. The code does not keep it: for the
  302 character text \<open>Hi.\<close>, a space and 298 letters \<open>a\<close>, with the budget 300 the
  code is called with, the second chunk is \<open>...\<close> followed by the 298 letters, which
  is 301 characters long.
\<close>

theorem split_chunks_exceeds_budget:
  "split_chunks (''Hi. '' @ replicate 298 CHR ''a'') 300
     = [''Hi....'', ''...'' @ replicate 298 CHR ''a'']
   \<and> length (split_chunks (''Hi. '' @ replicate 298 CHR ''a'') 300 ! 1) = 301"
proof -
  have "split_chunks (''Hi. '' @ replicate 298 CHR ''a'') 300
          = [''Hi....'', ''...'' @ replicate 298 CHR ''a'']"
    unfolding split_chunks_def re_split_hi_word
    by (simp add: add_sentence_def)
  then show ?thesis by simp
qed

section \<open>Orchestrator: the run statistics\<close>

lemma process_post_stats:
  "process_post env d sk (st, s, w) p = (st', s', w') \<Longrightarrow>
     processed st' = processed st + 1 \<and>
     ((transferred st' = transferred st + 1 \<and> skipped st' = skipped st \<and> errors st' = errors st) \<or>
      (transferred st' = transferred st \<and> skipped st' = skipped st + 1 \<and> errors st' = errors st) \<or>
      (transferred st' = transferred st \<and> skipped st' = skipped st \<and> errors st' = errors st + 1))"
  by (auto simp: process_post_def Let_def split: if_splits prod.splits sum.splits)

lemma foldl_process_sum:
  "foldl (process_post env d sk) (st, s, w) ps = (st', s', w') \<Longrightarrow>
   processed st = transferred st + skipped st + errors st \<Longrightarrow>
   processed st' = transferred st' + skipped st' + errors st'"
proof (induction ps arbitrary: st s w)
  case Nil
  then show ?case by simp
next
  case (Cons p ps)
  obtain st1 s1 w1 where step: "process_post env d sk (st, s, w) p = (st1, s1, w1)"
    by (cases "process_post env d sk (st, s, w) p") auto
  from process_post_stats [OF step] Cons.prems(2)
  have "processed st1 = transferred st1 + skipped st1 + errors st1" by auto
  with Cons.IH [of st1 s1 w1] Cons.prems(1) step show ?case by simp
qed

lemma foldl_process_processed:
  "foldl (process_post env d sk) (st, s, w) ps = (st', s', w') \<Longrightarrow>
   processed st' = processed st + length ps"
proof (induction ps arbitrary: st s w)
  case Nil
  then show ?case by simp
next
  case (Cons p ps)
  obtain st1 s1 w1 where step: "process_post env d sk (st, s, w) p = (st1, s1, w1)"
    by (cases "process_post env d sk (st, s, w) p") auto
  from process_post_stats [OF step] have "processed st1 = processed st + 1" by simp
  with Cons.IH [of st1 s1 w1] Cons.prems(1) step show ?case by simp
qed

text \<open>
  C10. For every run of \<open>transfer_posts\<close> the statistics returned satisfy
  processed = transferred + skipped + errors, and processed is the number of fetched
  posts. An empty fetched list returns the four counters at zero. Every step of the
  loop adds one to processed and one to exactly one of transferred, skipped and errors;
  in a dry run the step of a post that is not skipped adds it to transferred.
\<close>

theorem stats_partition:
  "processed (fst (transfer_posts env d sk fetched s w))
     = transferred (fst (transfer_posts env d sk fetched s w))
       + skipped (fst (transfer_posts env d sk fetched s w))
       + errors (fst (transfer_posts env d sk fetched s w))
   \<and> processed (fst (transfer_posts env d sk fetched s w)) = length fetched
   \<and> fst (transfer_posts env d sk [] s w)
       = \<lparr>processed = 0, transferred = 0, skipped = 0, errors = 0\<rparr>
   \<and> processed (fst (process_post env d sk (st, s, w) p)) = processed st + 1
   \<and> transferred (fst (process_post env d sk (st, s, w) p))
       + skipped (fst (process_post env d sk (st, s, w) p))
       + errors (fst (process_post env d sk (st, s, w) p))
       = transferred st + skipped st + errors st + 1
   \<and> transferred st \<le> transferred (fst (process_post env d sk (st, s, w) p))
   \<and> skipped st \<le> skipped (fst (process_post env d sk (st, s, w) p))
   \<and> errors st \<le> errors (fst (process_post env d sk (st, s, w) p))
   \<and> fst (process_post env True sk (st, s, w) p)
       = (if sk \<and> post_id p \<in> transferred_ids s
          then st\<lparr>processed := processed st + 1, skipped := skipped st + 1\<rparr>
          else st\<lparr>processed := processed st + 1, transferred := transferred st + 1\<rparr>)"
proof -
  obtain st' s' w' where run: "transfer_posts env d sk fetched s w = (st', s', w')"
    by (cases "transfer_posts env d sk fetched s w") auto
  have sum: "processed st' = transferred st' + skipped st' + errors st'"
  proof (cases "fetched = []")
    case True
    with run show ?thesis by (auto simp: transfer_posts_def zero_stats_def Let_def)
  next
    case False
    with run foldl_process_sum [of env d sk zero_stats s _ "rev fetched" st' s' w']
    show ?thesis by (simp add: transfer_posts_def zero_stats_def Let_def)
  qed
  have len: "processed st' = length fetched"
  proof (cases "fetched = []")
    case True
    with run show ?thesis by (auto simp: transfer_posts_def zero_stats_def Let_def)
  next
    case False
    with run foldl_process_processed [of env d sk zero_stats s _ "rev fetched" st' s' w']
    show ?thesis by (simp add: transfer_posts_def zero_stats_def Let_def)
  qed
  have empty: "fst (transfer_posts env d sk [] s w)
       = \<lparr>processed = 0, transferred = 0, skipped = 0, errors = 0\<rparr>"
    by (simp add: transfer_posts_def zero_stats_def Let_def)
  obtain st1 s1 w1 where step: "process_post env d sk (st, s, w) p = (st1, s1, w1)"
    by (cases "process_post env d sk (st, s, w) p") auto
  have dry: "fst (process_post env True sk (st, s, w) p)
       = (if sk \<and> post_id p \<in> transferred_ids s
          then st\<lparr>processed := processed st + 1, skipped := skipped st + 1\<rparr>
          else st\<lparr>processed := processed st + 1, transferred := transferred st + 1\<rparr>)"
    by (simp add: process_post_def Let_def)
  from process_post_stats [OF step] sum len empty dry run step show ?thesis
    by auto
qed

section \<open>Content Normalizer: the example and the content warning\<close>

lemma hello_world_text:
  "parse ''<p>Hello</p><p>World</p>'' = [Elem ''p'' [Text ''Hello''], Elem ''p'' [Text ''World'']]
   \<Longrightarrow> html_to_text parse ''<p>Hello</p><p>World</p>'' = ''Hello'' @ [newline, newline] @ ''World''"
  by (simp add: html_to_text_def Let_def strip_def is_space_def newline_def)

text \<open>
  C9. When the parser returns, for the body \<open><p>Hello</p><p>World</p>\<close>, the tree of
  the two paragraphs Hello and World, the normalized text is Hello, two newlines, World,
  and it is the text of a post with that body and no content warning. For every post
  with a non-empty content warning \<open>w\<close> and normalized body \<open>t\<close>, the text is
  \<open>CW: \<close>, then \<open>w\<close>, two newlines, and \<open>t\<close>.
\<close>

theorem normalizer_example_and_warning:
  "(parse_html env ''<p>Hello</p><p>World</p>''
       = [Elem ''p'' [Text ''Hello''], Elem ''p'' [Text ''World'']]
     \<longrightarrow> html_to_text (parse_html env) ''<p>Hello</p><p>World</p>''
           = ''Hello'' @ [newline, newline] @ ''World''
         \<and> (spoiler_text p = [] \<and> content p = ''<p>Hello</p><p>World</p>''
              \<longrightarrow> post_text env p = ''Hello'' @ [newline, newline] @ ''World''))
   \<and> (spoiler_text p \<noteq> []
     \<longrightarrow> post_text env p
           = ''CW: '' @ spoiler_text p @ [newline, newline]
               @ html_to_text (parse_html env) (content p))"
  using hello_world_text [of "parse_html env"]
  by (simp add: post_text_def Let_def)

theorem normalizer_example_and_warning_witness:
  "html_to_text two_paragraphs ''<p>Hello</p><p>World</p>'' = ''Hello'' @ [newline, newline] @ ''World''
   \<and> post_text (ok_clients\<lparr>parse_html := two_paragraphs\<rparr>)
        ((simple_post ''1'' 0 ''<p>Hello</p><p>World</p>'')\<lparr>spoiler_text := ''food''\<rparr>)
      = ''CW: food'' @ [newline, newline] @ ''Hello'' @ [newline, newline] @ ''World''
   \<and> post_text (ok_clients\<lparr>parse_html := two_paragraphs\<rparr>)
        (simple_post ''1'' 0 ''<p>Hello</p><p>World</p>'')
      = ''Hello'' @ [newline, newline] @ ''World''"
  using normalizer_example_and_warning
    [of "ok_clients\<lparr>parse_html := two_paragraphs\<rparr>"
        "(simple_post ''1'' 0 ''<p>Hello</p><p>World</p>'')\<lparr>spoiler_text := ''food''\<rparr>"]
    normalizer_example_and_warning
    [of "ok_clients\<lparr>parse_html := two_paragraphs\<rparr>"
        "simple_post ''1'' 0 ''<p>Hello</p><p>World</p>''"]
  by (simp add: ok_clients_def two_paragraphs_def simple_post_def)


section \<open>Dry run\<close>

lemma process_post_dry:
  "process_post env True sk (st, s, w) p = (st', s', w') \<Longrightarrow>
     s' = s \<and> state_file w' = state_file w \<and> post_calls w' = post_calls w
     \<and> upload_calls w' = upload_calls w \<and> download_calls w' = download_calls w"
  by (auto simp: process_post_def Let_def split: if_splits)

lemma foldl_process_dry:
  "foldl (process_post env True sk) (st, s, w) ps = (st', s', w') \<Longrightarrow>
     s' = s \<and> state_file w' = state_file w \<and> post_calls w' = post_calls w
     \<and> upload_calls w' = upload_calls w \<and> download_calls w' = download_calls w"
proof (induction ps arbitrary: st s w)
  case Nil
  then show ?case by simp
next
  case (Cons p ps)
  obtain st1 s1 w1 where step: "process_post env True sk (st, s, w) p = (st1, s1, w1)"
    by (cases "process_post env True sk (st, s, w) p") auto
  from Cons.IH [of st1 s1 w1] Cons.prems step process_post_dry [OF step]
  show ?case by simp
qed

text \<open>
  C7. In a dry run \<open>transfer_posts\<close> leaves the state of the manager as it was, creates
  no destination post, uploads and downloads no media and leaves the state file as it
  was; the same holds for the whole run, whose state stays the one loaded at start.
\<close>

theorem dry_run_frame:
  "fst (snd (transfer_posts env True sk fetched s w)) = s
   \<and> state_file (snd (snd (transfer_posts env True sk fetched s w))) = state_file w
   \<and> post_calls (snd (snd (transfer_posts env True sk fetched s w))) = post_calls w
   \<and> upload_calls (snd (snd (transfer_posts env True sk fetched s w))) = upload_calls w
   \<and> download_calls (snd (snd (transfer_posts env True sk fetched s w))) = download_calls w
   \<and> state_file (snd (snd (run_transfer env True sk fetched w))) = state_file w
   \<and> post_calls (snd (snd (run_transfer env True sk fetched w))) = post_calls w
   \<and> upload_calls (snd (snd (run_transfer env True sk fetched w))) = upload_calls w
   \<and> fst (snd (run_transfer env True sk fetched w)) = fst (load_state env w)"
proof -
  have frame: "s' = s0 \<and> state_file w' = state_file w0 \<and> post_calls w' = post_calls w0
      \<and> upload_calls w' = upload_calls w0 \<and> download_calls w' = download_calls w0"
    if "transfer_posts env True sk fetched s0 w0 = (st', s', w')" for s0 w0 st' s' w'
  proof (cases "fetched = []")
    case True
    with that show ?thesis by (auto simp: transfer_posts_def Let_def)
  next
    case False
    with that foldl_process_dry [of env sk zero_stats s0 _ "rev fetched" st' s' w']
    show ?thesis by (simp add: transfer_posts_def Let_def)
  qed
  obtain st1 s1 w1 where r1: "transfer_posts env True sk fetched s w = (st1, s1, w1)"
    by (cases "transfer_posts env True sk fetched s w") auto
  obtain s0 w0 where l: "load_state env w = (s0, w0)"
    by (cases "load_state env w") auto
  have lw: "state_file w0 = state_file w \<and> post_calls w0 = post_calls w
      \<and> upload_calls w0 = upload_calls w"
    using l by (auto simp: load_state_def Let_def split: file_status.splits)
  obtain st2 s2 w2 where r2: "transfer_posts env True sk fetched s0 w0 = (st2, s2, w2)"
    by (cases "transfer_posts env True sk fetched s0 w0") auto
  from frame [OF r1] frame [OF r2] lw l r1 r2 show ?thesis
    by (simp add: run_transfer_def)
qed

section \<open>Loading the state\<close>




section \<open>Media Resolver: the cap and the filter\<close>


lemma embed_images_frame:
  "embed_images env atts imgs w = (res, w') \<Longrightarrow>
     post_calls w' = post_calls w \<and> state_file w' = state_file w"
proof (induction atts arbitrary: imgs w)
  case Nil
  then show ?case by simp
next
  case (Cons a atts)
  show ?case
  proof (cases "is_image a")
    case False
    show ?thesis
    proof (cases "att_type a")
      case None
      with Cons.prems show ?thesis by auto
    next
      case (Some t)
      with False Cons.prems have "embed_images env atts imgs w = (res, w')"
        by (simp add: is_image_def)
      from Cons.IH [OF this] show ?thesis .
    qed
  next
    case True
    then have t: "att_type a = Some ''image''" by (simp add: is_image_def)
    show ?thesis
    proof (cases "att_url a")
      case None
      with t Cons.prems show ?thesis by auto
    next
      case (Some u)
      show ?thesis
      proof (cases "download_media env w u")
        case (Inl e)
        with t Some Cons.prems show ?thesis by (auto simp: Let_def)
      next
        case (Inr d)
        show ?thesis
        proof (cases "upload_image env (w\<lparr>download_calls := download_calls w @ [u]\<rparr>) d")
          case (Inl e)
          with t Some Inr Cons.prems show ?thesis by (auto simp: Let_def)
        next
          case (Inr b)
          with t Some \<open>download_media env w u = Inr d\<close> Cons.prems
          have "embed_images env atts (imgs @ [\<lparr>image_blob = b, alt = alt_text a\<rparr>])
               (w\<lparr>download_calls := download_calls w @ [u],
                  upload_calls := upload_calls w @ [d]\<rparr>) = (res, w')"
            by (simp add: Let_def)
          from Cons.IH [OF this] show ?thesis by simp
        qed
      qed
    qed
  qed
qed

lemma resolve_media_frame:
  "resolve_media env d atts w = (res, w') \<Longrightarrow>
     post_calls w' = post_calls w \<and> state_file w' = state_file w"
  using embed_images_frame [of env "take 4 atts" "[]" w]
  by (auto simp: resolve_media_def create_media_embed_def split: if_splits prod.splits sum.splits)




section \<open>Thread Builder: order and linkage of the requests\<close>

lemma create_posts_log:
  "create_posts env p emb n i pref chunks w = (res, w') \<Longrightarrow>
   \<exists>new. post_calls w' = post_calls w @ new \<and> state_file w' = state_file w
     \<and> length new \<le> length chunks
     \<and> (res = Inr () \<longrightarrow> length new = length chunks)
     \<and> (\<forall>k<length new.
           create_rich_text env (chunks ! k) = Inr (bsky_text (fst (new ! k)), facets (fst (new ! k)))
           \<and> bsky_created_at (fst (new ! k)) = created_at p
           \<and> embed (fst (new ! k)) = (if i + k = 0 then emb else None))"
proof (induction chunks arbitrary: i pref w)
  case Nil
  then show ?case by simp
next
  case (Cons c chunks)
  show ?case
  proof (cases "create_rich_text env c")
    case (Inl e)
    with Cons.prems show ?thesis by auto
  next
    case (Inr tf)
    obtain tx fs where tf: "tf = (tx, fs)" by (cases tf)
    define req where "req = \<lparr>bsky_text = tx, bsky_created_at = created_at p, facets = fs,
        embed = (if i = 0 then emb else None), reply = pref\<rparr>"
    define w1 where "w1 = w\<lparr>post_calls := post_calls w @ [(req, create_post env w req)]\<rparr>"
    show ?thesis
    proof (cases "create_post env w req")
      case (Inl e)
      with Cons.prems Inr tf have "res = Inl e" "w' = w1"
        by (simp_all add: Let_def req_def w1_def)
      then have "post_calls w' = post_calls w @ [(req, create_post env w req)]"
        "state_file w' = state_file w" by (simp_all add: w1_def)
      with Inr tf \<open>res = Inl e\<close> show ?thesis
        by (intro exI [of _ "[(req, create_post env w req)]"]) (simp add: req_def)
    next
      case r: (Inr r)
      with Cons.prems Inr tf
      have rest: "create_posts env p emb n (Suc i) (next_parent_ref i n pref r) chunks w1 = (res, w')"
        by (simp add: Let_def req_def w1_def)
      from Cons.IH [OF rest] obtain new where new:
        "post_calls w' = post_calls w1 @ new" "state_file w' = state_file w1"
        "length new \<le> length chunks" "res = Inr () \<longrightarrow> length new = length chunks"
        "\<forall>k<length new.
           create_rich_text env (chunks ! k) = Inr (bsky_text (fst (new ! k)), facets (fst (new ! k)))
           \<and> bsky_created_at (fst (new ! k)) = created_at p
           \<and> embed (fst (new ! k)) = (if Suc i + k = 0 then emb else None)"
        by blast
      let ?all = "(req, create_post env w req) # new"
      have "\<forall>k<length ?all.
           create_rich_text env ((c # chunks) ! k) = Inr (bsky_text (fst (?all ! k)), facets (fst (?all ! k)))
           \<and> bsky_created_at (fst (?all ! k)) = created_at p
           \<and> embed (fst (?all ! k)) = (if i + k = 0 then emb else None)"
      proof (intro allI impI)
        fix k assume k: "k < length ?all"
        show "create_rich_text env ((c # chunks) ! k) = Inr (bsky_text (fst (?all ! k)), facets (fst (?all ! k)))
           \<and> bsky_created_at (fst (?all ! k)) = created_at p
           \<and> embed (fst (?all ! k)) = (if i + k = 0 then emb else None)"
        proof (cases k)
          case 0
          with Inr tf show ?thesis by (simp add: req_def)
        next
          case (Suc j)
          with k new(5) show ?thesis by simp
        qed
      qed
      with new show ?thesis
        by (intro exI [of _ ?all]) (simp add: w1_def)
    qed
  qed
qed

lemma create_posts_linked:
  "create_posts env p emb n i (Some par) chunks w = (res, w') \<Longrightarrow> 0 < i \<Longrightarrow>
   linked (root par) (parent par) (new_posts w w')"
proof (induction chunks arbitrary: i par w)
  case Nil
  then show ?case by (simp add: new_posts_def)
next
  case (Cons c chunks)
  show ?case
  proof (cases "create_rich_text env c")
    case (Inl e)
    with Cons.prems show ?thesis by (simp add: new_posts_def)
  next
    case (Inr tf)
    obtain tx fs where tf: "tf = (tx, fs)" by (cases tf)
    define req where "req = \<lparr>bsky_text = tx, bsky_created_at = created_at p, facets = fs,
        embed = (if i = 0 then emb else None), reply = Some par\<rparr>"
    define w1 where "w1 = w\<lparr>post_calls := post_calls w @ [(req, create_post env w req)]\<rparr>"
    show ?thesis
    proof (cases "create_post env w req")
      case (Inl e)
      with Cons.prems Inr tf have "w' = w1"
        by (simp_all add: Let_def req_def w1_def)
      with Inl show ?thesis by (simp add: new_posts_def w1_def req_def)
    next
      case r: (Inr r)
      with Cons.prems Inr tf
      have rest: "create_posts env p emb n (Suc i) (Some (par\<lparr>parent := r\<rparr>)) chunks w1 = (res, w')"
        by (simp add: Let_def req_def w1_def next_parent_ref_def)
      from Cons.IH [OF rest] have l: "linked (root par) r (new_posts w1 w')" by simp
      from create_posts_log [OF rest] obtain new where "post_calls w' = post_calls w1 @ new"
        by blast
      then have "new_posts w w' = (req, create_post env w req) # new_posts w1 w'"
        by (simp add: new_posts_def w1_def)
      with l r show ?thesis by (simp add: req_def)
    qed
  qed
qed

lemma linked_nth:
  "linked r0 rp log \<Longrightarrow> k < length log \<Longrightarrow>
   \<exists>rq. (if k = 0 then rq = rp else snd (log ! (k - 1)) = Inr rq)
     \<and> reply (fst (log ! k)) = Some \<lparr>root = r0, parent = rq\<rparr>"
proof (induction log arbitrary: rp k)
  case Nil
  then show ?case by simp
next
  case (Cons x log)
  obtain req res where x: "x = (req, res)" by (cases x)
  show ?case
  proof (cases k)
    case 0
    with Cons.prems x show ?thesis by simp
  next
    case (Suc j)
    with Cons.prems x obtain r where r: "res = Inr r" "linked r0 r log" "j < length log"
      by (cases res) auto
    from Cons.IH [OF r(2) r(3)] obtain rq where
      rq: "if j = 0 then rq = r else snd (log ! (j - 1)) = Inr rq"
        "reply (fst (log ! j)) = Some \<lparr>root = r0, parent = rq\<rparr>" by blast
    show ?thesis
    proof (cases j)
      case 0
      with rq Suc x r show ?thesis by simp
    next
      case (Suc j')
      with rq \<open>k = Suc j\<close> show ?thesis by simp
    qed
  qed
qed


lemma create_posts_thread:
  "create_posts env p emb n 0 None chunks w = (res, w') \<Longrightarrow> 1 < n \<Longrightarrow>
   (case new_posts w w' of
      [] \<Rightarrow> True
    | x # rest \<Rightarrow>
        reply (fst x) = None
        \<and> (case snd x of Inr r0 \<Rightarrow> linked r0 r0 rest | Inl e \<Rightarrow> rest = []))"
proof (cases chunks)
  case Nil
  assume "create_posts env p emb n 0 None chunks w = (res, w')"
  with Nil show ?thesis by (simp add: new_posts_def)
next
  case (Cons c cs)
  assume run: "create_posts env p emb n 0 None chunks w = (res, w')" and n: "1 < n"
  show ?thesis
  proof (cases "create_rich_text env c")
    case (Inl e)
    with run Cons show ?thesis by (simp add: new_posts_def)
  next
    case (Inr tf)
    obtain tx fs where tf: "tf = (tx, fs)" by (cases tf)
    define req where "req = \<lparr>bsky_text = tx, bsky_created_at = created_at p, facets = fs,
        embed = emb, reply = None\<rparr>"
    define w1 where "w1 = w\<lparr>post_calls := post_calls w @ [(req, create_post env w req)]\<rparr>"
    show ?thesis
    proof (cases "create_post env w req")
      case (Inl e)
      with run Cons Inr tf have "w' = w1"
        by (simp add: Let_def req_def w1_def)
      with Inl show ?thesis by (simp add: new_posts_def w1_def req_def)
    next
      case r: (Inr r)
      with run Cons Inr tf n
      have rest: "create_posts env p emb n (Suc 0) (Some \<lparr>root = r, parent = r\<rparr>) cs w1 = (res, w')"
        by (simp add: Let_def req_def w1_def next_parent_ref_def)
      from create_posts_linked [OF rest] have l: "linked r r (new_posts w1 w')" by simp
      from create_posts_log [OF rest] obtain new where "post_calls w' = post_calls w1 @ new"
        by blast
      then have "new_posts w w' = (req, create_post env w req) # new_posts w1 w'"
        by (simp add: new_posts_def w1_def)
      with l r show ?thesis by (simp add: req_def)
    qed
  qed
qed

text \<open>
  C6. For a post whose text splits into more than one chunk, the requests sent to the
  destination follow the chunks in order (request \<open>k\<close> carries the rich text of chunk
  \<open>k\<close> and the creation time of the post), and there are as many as chunks when the
  transfer completes. Request 0 has no reply linkage and carries the embed of the post.
  Every later request carries no embed, and its reply linkage has for root the reference
  answered to request 0 and for parent the reference answered to the request before it.
\<close>

theorem thread_linkage:
  assumes run: "transfer_post env False p w = (res, w')"
    and n: "1 < length (split_text (post_text env p) 300)"
  shows "post_calls w' = post_calls w @ new_posts w w'
    \<and> length (new_posts w w') \<le> length (split_text (post_text env p) 300)
    \<and> (res = Inr () \<longrightarrow> length (new_posts w w') = length (split_text (post_text env p) 300))
    \<and> (\<forall>k<length (new_posts w w').
          create_rich_text env (split_text (post_text env p) 300 ! k)
            = Inr (bsky_text (fst (new_posts w w' ! k)), facets (fst (new_posts w w' ! k)))
          \<and> bsky_created_at (fst (new_posts w w' ! k)) = created_at p
          \<and> (k = 0 \<longrightarrow>
                reply (fst (new_posts w w' ! k)) = None
                \<and> (\<exists>w1. resolve_media env False (media_attachments p) w
                          = (Inr (embed (fst (new_posts w w' ! k))), w1)))
          \<and> (0 < k \<longrightarrow>
                embed (fst (new_posts w w' ! k)) = None
                \<and> (\<exists>r0 rp. snd (new_posts w w' ! 0) = Inr r0
                      \<and> snd (new_posts w w' ! (k - 1)) = Inr rp
                      \<and> reply (fst (new_posts w w' ! k)) = Some \<lparr>root = r0, parent = rp\<rparr>)))"
proof -
  let ?chunks = "split_text (post_text env p) 300"
  obtain mres w1 where m: "resolve_media env False (media_attachments p) w = (mres, w1)"
    by (cases "resolve_media env False (media_attachments p) w")
  from resolve_media_frame [OF m] have pc1: "post_calls w1 = post_calls w" by simp
  show ?thesis
  proof (cases mres)
    case (Inl e)
    with run m have "w' = w1" "res = Inl e" by (simp_all add: transfer_post_def Let_def)
    with pc1 show ?thesis by (simp add: new_posts_def)
  next
    case (Inr emb)
    with run m have cp: "create_posts env p emb (length ?chunks) 0 None ?chunks w1 = (res, w')"
      by (simp add: transfer_post_def Let_def)
    from create_posts_log [OF cp] obtain new where new:
      "post_calls w' = post_calls w1 @ new"
      "length new \<le> length ?chunks" "res = Inr () \<longrightarrow> length new = length ?chunks"
      "\<forall>k<length new.
           create_rich_text env (?chunks ! k) = Inr (bsky_text (fst (new ! k)), facets (fst (new ! k)))
           \<and> bsky_created_at (fst (new ! k)) = created_at p
           \<and> embed (fst (new ! k)) = (if 0 + k = 0 then emb else None)"
      by blast
    from new(1) pc1 have np: "new_posts w w' = new" "new_posts w1 w' = new"
      by (simp_all add: new_posts_def)
    from create_posts_thread [OF cp n] np
    have th: "case new of [] \<Rightarrow> True
        | x # rest \<Rightarrow> reply (fst x) = None
            \<and> (case snd x of Inr r0 \<Rightarrow> linked r0 r0 rest | Inl e \<Rightarrow> rest = [])"
      by simp
    have first: "reply (fst (new ! 0)) = None" if "new \<noteq> []"
      using that th by (cases new) auto
    have later: "\<exists>r0 rp. snd (new ! 0) = Inr r0 \<and> snd (new ! (k - 1)) = Inr rp
                      \<and> reply (fst (new ! k)) = Some \<lparr>root = r0, parent = rp\<rparr>"
      if k: "0 < k" "k < length new" for k
    proof -
      from k obtain x rest where xr: "new = x # rest"
        by (cases new) auto
      with k have ne: "rest \<noteq> []" by auto
      with xr th obtain r0 where r0: "snd x = Inr r0" "linked r0 r0 rest"
        by (cases "snd x") auto
      from k obtain j where j: "k = Suc j" by (cases k) auto
      with k xr have "j < length rest" by simp
      from linked_nth [OF r0(2) this] obtain rq where
        rq: "if j = 0 then rq = r0 else snd (rest ! (j - 1)) = Inr rq"
          "reply (fst (rest ! j)) = Some \<lparr>root = r0, parent = rq\<rparr>"
        by blast
      have a: "snd (new ! 0) = Inr r0" using xr r0 by simp
      have "snd (new ! j) = Inr rq"
      proof (cases j)
        case 0
        with rq xr r0 show ?thesis by simp
      next
        case (Suc i)
        with rq xr show ?thesis by simp
      qed
      with j have b: "snd (new ! (k - 1)) = Inr rq" by simp
      have c: "reply (fst (new ! k)) = Some \<lparr>root = r0, parent = rq\<rparr>"
        using rq(2) xr j by simp
      from a b c show ?thesis by blast
    qed
    from new np first later m Inr pc1 show ?thesis
      by auto
  qed
qed

theorem thread_linkage_witness:
  "1 < length (split_text (post_text ok_clients long_post) 300)
   \<and> length (new_posts empty_world (snd (transfer_post ok_clients False long_post empty_world))) = 3
   \<and> reply (fst (new_posts empty_world (snd (transfer_post ok_clients False long_post empty_world)) ! 0))
       = None
   \<and> (\<exists>r0 rp. snd (new_posts empty_world (snd (transfer_post ok_clients False long_post empty_world)) ! 0)
                  = Inr r0
         \<and> snd (new_posts empty_world (snd (transfer_post ok_clients False long_post empty_world)) ! 1)
                  = Inr rp
         \<and> reply (fst (new_posts empty_world (snd (transfer_post ok_clients False long_post empty_world)) ! 2))
             = Some \<lparr>root = r0, parent = rp\<rparr>)
   \<and> map (reply \<circ> fst) (post_calls (snd (transfer_post ok_clients False long_post empty_world)))
       = [None,
          Some \<lparr>root = \<lparr>uri = ''[1/3] Hi....'', cid = ''0''\<rparr>,
                parent = \<lparr>uri = ''[1/3] Hi....'', cid = ''0''\<rparr>\<rparr>,
          Some \<lparr>root = \<lparr>uri = ''[1/3] Hi....'', cid = ''0''\<rparr>,
                parent = \<lparr>uri = ''[2/3] ...'' @ replicate 297 CHR ''a'' @ ''....'', cid = ''1''\<rparr>\<rparr>]"
proof -
  let ?w = "snd (transfer_post ok_clients False long_post empty_world)"
  have run: "transfer_post ok_clients False long_post empty_world
      = (fst (transfer_post ok_clients False long_post empty_world), ?w)"
    by simp
  have n: "1 < length (split_text (post_text ok_clients long_post) 300)"
    by code_simp
  have ok: "fst (transfer_post ok_clients False long_post empty_world) = Inr ()"
    by code_simp
  have three: "length (split_text (post_text ok_clients long_post) 300) = 3"
    by code_simp
  have log: "map (reply \<circ> fst) (post_calls ?w)
       = [None,
          Some \<lparr>root = \<lparr>uri = ''[1/3] Hi....'', cid = ''0''\<rparr>,
                parent = \<lparr>uri = ''[1/3] Hi....'', cid = ''0''\<rparr>\<rparr>,
          Some \<lparr>root = \<lparr>uri = ''[1/3] Hi....'', cid = ''0''\<rparr>,
                parent = \<lparr>uri = ''[2/3] ...'' @ replicate 297 CHR ''a'' @ ''....'', cid = ''1''\<rparr>\<rparr>]"
    by code_simp
  from thread_linkage [OF run n] ok three
  have len: "length (new_posts empty_world ?w) = 3" by simp
  from thread_linkage [OF run n]
  have "0 < length (new_posts empty_world ?w) \<longrightarrow>
      reply (fst (new_posts empty_world ?w ! 0)) = None"
    by blast
  with len have k0: "reply (fst (new_posts empty_world ?w ! 0)) = None" by simp
  from thread_linkage [OF run n]
  have "2 < length (new_posts empty_world ?w) \<longrightarrow> 0 < (2::nat) \<longrightarrow>
      (\<exists>r0 rp. snd (new_posts empty_world ?w ! 0) = Inr r0
         \<and> snd (new_posts empty_world ?w ! (2 - 1)) = Inr rp
         \<and> reply (fst (new_posts empty_world ?w ! 2)) = Some \<lparr>root = r0, parent = rp\<rparr>)"
    by blast
  with len have k2: "\<exists>r0 rp. snd (new_posts empty_world ?w ! 0) = Inr r0
         \<and> snd (new_posts empty_world ?w ! 1) = Inr rp
         \<and> reply (fst (new_posts empty_world ?w ! 2)) = Some \<lparr>root = r0, parent = rp\<rparr>"
    by simp
  from n len k0 k2 log show ?thesis by blast
qed

section \<open>Orchestrator: the order of submission\<close>

lemma new_posts_eq: "post_calls w' = post_calls w @ xs \<Longrightarrow> new_posts w w' = xs"
  by (simp add: new_posts_def)

lemma transfer_post_log:
  assumes "transfer_post env d p w = (res, w')"
  shows "post_calls w' = post_calls w @ new_posts w w'
    \<and> (\<forall>x\<in>set (new_posts w w'). bsky_created_at (fst x) = created_at p)
    \<and> state_file w' = state_file w"
proof -
  obtain mres w1 where m: "resolve_media env d (media_attachments p) w = (mres, w1)"
    by (cases "resolve_media env d (media_attachments p) w")
  from resolve_media_frame [OF m]
  have fr: "post_calls w1 = post_calls w" "state_file w1 = state_file w" by simp_all
  show ?thesis
  proof (cases mres)
    case (Inl e)
    with assms m have "w' = w1" by (simp add: transfer_post_def Let_def)
    with fr show ?thesis by (simp add: new_posts_def)
  next
    case (Inr emb)
    let ?chunks = "split_text (post_text env p) 300"
    from Inr assms m
    have cp: "create_posts env p emb (length ?chunks) 0 None ?chunks w1 = (res, w')"
      by (simp add: transfer_post_def Let_def)
    from create_posts_log [OF cp] obtain new where new:
      "post_calls w' = post_calls w1 @ new" "state_file w' = state_file w1"
      "\<forall>k<length new. bsky_created_at (fst (new ! k)) = created_at p"
      by blast
    from new(1) fr have np: "new_posts w w' = new" by (simp add: new_posts_def)
    from new(3) have "\<forall>x\<in>set new. bsky_created_at (fst x) = created_at p"
      by (metis in_set_conv_nth)
    with new fr np show ?thesis by simp
  qed
qed

lemma process_post_log:
  assumes "process_post env d sk (st, s, w) p = (st', s', w')"
  shows "post_calls w' = post_calls w @ new_posts w w'
    \<and> (\<forall>x\<in>set (new_posts w w'). bsky_created_at (fst x) = created_at p)"
proof (cases "(sk \<and> post_id p \<in> transferred_ids s) \<or> d")
  case True
  with assms have "post_calls w' = post_calls w"
    by (auto simp: process_post_def Let_def split: if_splits)
  then show ?thesis by (simp add: new_posts_def)
next
  case False
  obtain res w1 where t: "transfer_post env d p w = (res, w1)"
    by (cases "transfer_post env d p w")
  from False t assms have "post_calls w' = post_calls w1"
    by (auto simp: process_post_def Let_def save_state_def
        split: sum.splits option.splits prod.splits if_splits)
  with transfer_post_log [OF t] show ?thesis by (simp add: new_posts_def)
qed

lemma foldl_process_sorted:
  "foldl (process_post env d sk) (st, s, w) ps = (st', s', w') \<Longrightarrow>
   sorted (map created_at ps) \<Longrightarrow>
   post_calls w' = post_calls w @ new_posts w w'
   \<and> sorted (map (bsky_created_at \<circ> fst) (new_posts w w'))
   \<and> (\<forall>x\<in>set (new_posts w w'). \<exists>q\<in>set ps. bsky_created_at (fst x) = created_at q)"
proof (induction ps arbitrary: st s w)
  case Nil
  then show ?case by (simp add: new_posts_def)
next
  case (Cons p ps)
  obtain st1 s1 w1 where step: "process_post env d sk (st, s, w) p = (st1, s1, w1)"
    by (cases "process_post env d sk (st, s, w) p") auto
  with Cons.prems have rest: "foldl (process_post env d sk) (st1, s1, w1) ps = (st', s', w')"
    by simp
  from Cons.prems have srt: "sorted (map created_at ps)"
    and le: "\<forall>q\<in>set ps. created_at p \<le> created_at q" by simp_all
  from process_post_log [OF step] have a:
    "post_calls w1 = post_calls w @ new_posts w w1"
    "\<forall>x\<in>set (new_posts w w1). bsky_created_at (fst x) = created_at p" by blast+
  from Cons.IH [OF rest srt] have b:
    "post_calls w' = post_calls w1 @ new_posts w1 w'"
    "sorted (map (bsky_created_at \<circ> fst) (new_posts w1 w'))"
    "\<forall>x\<in>set (new_posts w1 w'). \<exists>q\<in>set ps. bsky_created_at (fst x) = created_at q"
    by blast+
  from a(1) b(1) have "post_calls w' = post_calls w @ (new_posts w w1 @ new_posts w1 w')"
    by (metis append_assoc)
  then have split: "new_posts w w' = new_posts w w1 @ new_posts w1 w'"
    by (rule new_posts_eq)
  have s1: "sorted (map (bsky_created_at \<circ> fst) (new_posts w w1))"
    using a(2) by (induction "new_posts w w1") (auto simp: sorted_wrt_iff_nth_less)
  have "sorted (map (bsky_created_at \<circ> fst) (new_posts w w'))"
    unfolding split using s1 b(2) a(2) b(3) le
    by (auto simp: sorted_append)
  moreover have "\<forall>x\<in>set (new_posts w w'). \<exists>q\<in>set (p # ps). bsky_created_at (fst x) = created_at q"
    unfolding split using a(2) b(3) by auto
  moreover have "post_calls w' = post_calls w @ new_posts w w'"
    using a(1) b(1) split by (metis append_assoc)
  ultimately show ?case by blast
qed

text \<open>
  C4, as stated, holds whatever the order of the fetched list. The code only reverses
  the list: two posts fetched oldest first (times 1 and 2) are submitted newest first.
\<close>

theorem submission_not_sorted:
  "map (bsky_created_at \<circ> fst)
     (post_calls (snd (snd (run_transfer ok_clients False True
        [simple_post ''a'' 1 ''x'', simple_post ''b'' 2 ''y''] empty_world))))
   = [2, 1]"
  by code_simp

text \<open>
  C4, amended. The loop runs over the fetched list reversed. When the source returns
  the posts newest first (creation times never increasing along the fetched list), the
  requests submitted to the destination during the run carry creation times that never
  decrease.
\<close>

theorem submission_oldest_first:
  assumes "sorted (rev (map created_at fetched))"
  shows "sorted (map (bsky_created_at \<circ> fst)
           (new_posts w (snd (snd (transfer_posts env d sk fetched s w)))))"
proof (cases "fetched = []")
  case True
  then show ?thesis by (simp add: transfer_posts_def Let_def new_posts_def)
next
  case False
  let ?w0 = "w\<lparr>console := console w @ [Fetching_posts, Found_posts (length fetched)]\<rparr>"
  obtain st' s' w' where r: "foldl (process_post env d sk) (zero_stats, s, ?w0) (rev fetched) = (st', s', w')"
    by (cases "foldl (process_post env d sk) (zero_stats, s, ?w0) (rev fetched)") auto
  from assms have "sorted (map created_at (rev fetched))" by (simp add: rev_map)
  from foldl_process_sorted [OF r this]
  have "sorted (map (bsky_created_at \<circ> fst) (new_posts ?w0 w'))" by simp
  moreover have "new_posts ?w0 w' = new_posts w w'" by (simp add: new_posts_def)
  moreover from False r have "snd (snd (transfer_posts env d sk fetched s w)) = w'"
    by (simp add: transfer_posts_def Let_def)
  ultimately show ?thesis by simp
qed

theorem submission_oldest_first_witness:
  "sorted (rev (map created_at [simple_post ''b'' 2 ''y'', simple_post ''a'' 1 ''x'']))
   \<and> sorted (map (bsky_created_at \<circ> fst)
        (new_posts empty_world (snd (snd (transfer_posts ok_clients False True
           [simple_post ''b'' 2 ''y'', simple_post ''a'' 1 ''x'']
           (fresh_state ok_clients empty_world) empty_world)))))
   \<and> map (bsky_created_at \<circ> fst)
        (new_posts empty_world (snd (snd (transfer_posts ok_clients False True
           [simple_post ''b'' 2 ''y'', simple_post ''a'' 1 ''x'']
           (fresh_state ok_clients empty_world) empty_world))))
      = [1, 2]"
proof -
  have h: "sorted (rev (map created_at [simple_post ''b'' 2 ''y'', simple_post ''a'' 1 ''x'']))"
    by (simp add: simple_post_def)
  have v: "map (bsky_created_at \<circ> fst)
        (new_posts empty_world (snd (snd (transfer_posts ok_clients False True
           [simple_post ''b'' 2 ''y'', simple_post ''a'' 1 ''x'']
           (fresh_state ok_clients empty_world) empty_world))))
      = [1, 2]"
    by code_simp
  from submission_oldest_first [OF h] h v show ?thesis by blast
qed

section \<open>Orchestrator: failures and repeated runs\<close>

lemma load_state_ids: "transferred_ids (fst (load_state env w)) = stored_ids w"
  by (simp add: load_state_def stored_ids_def fresh_state_def Let_def split: file_status.splits)

lemma load_state_file: "stored_ids (snd (load_state env w)) = stored_ids w"
  by (simp add: load_state_def stored_ids_def Let_def split: file_status.splits)

lemma process_post_errors_mono:
  "process_post env d sk (st, s, w) p = (st', s', w') \<Longrightarrow>
     errors st \<le> errors st' \<and> transferred_ids s \<subseteq> transferred_ids s'"
  by (auto simp: process_post_def Let_def split: if_splits prod.splits sum.splits)

lemma foldl_process_mono:
  "foldl (process_post env d sk) (st, s, w) ps = (st', s', w') \<Longrightarrow>
     errors st \<le> errors st' \<and> transferred_ids s \<subseteq> transferred_ids s'"
proof (induction ps arbitrary: st s w)
  case Nil
  then show ?case by simp
next
  case (Cons p ps)
  obtain st1 s1 w1 where step: "process_post env d sk (st, s, w) p = (st1, s1, w1)"
    by (cases "process_post env d sk (st, s, w) p") auto
  with Cons.prems have rest: "foldl (process_post env d sk) (st1, s1, w1) ps = (st', s', w')"
    by simp
  from process_post_errors_mono [OF step] Cons.IH [OF rest] show ?case by auto
qed

lemma process_post_no_error:
  assumes step: "process_post env False sk (st, s, w) p = (st', s', w')"
    and e: "errors st' = errors st"
    and inv: "stored_ids w = transferred_ids s"
  shows "stored_ids w' = transferred_ids s' \<and> post_id p \<in> transferred_ids s'"
proof (cases "sk \<and> post_id p \<in> transferred_ids s")
  case True
  with step inv show ?thesis by (auto simp: process_post_def Let_def)
next
  case False
  obtain res w1 where t: "transfer_post env False p w = (res, w1)"
    by (cases "transfer_post env False p w")
  from transfer_post_log [OF t] have f: "state_file w1 = state_file w" by simp
  show ?thesis
  proof (cases res)
    case (Inl err)
    with False t step e show ?thesis by (auto simp: process_post_def Let_def)
  next
    case (Inr u)
    let ?s1 = "s\<lparr>transferred_ids := insert (post_id p) (transferred_ids s),
        last_mastodon_id := Some (post_id p), last_updated := now env w1\<rparr>"
    show ?thesis
    proof (cases "write_state env w1 ?s1")
      case None
      with False t Inr step show ?thesis
        by (auto simp: process_post_def Let_def save_state_def stored_ids_def)
    next
      case (Some ef)
      with False t Inr step e show ?thesis
        by (auto simp: process_post_def Let_def save_state_def split: prod.splits)
    qed
  qed
qed

lemma foldl_process_no_error:
  "foldl (process_post env False sk) (st, s, w) ps = (st', s', w') \<Longrightarrow>
   errors st' = errors st \<Longrightarrow> stored_ids w = transferred_ids s \<Longrightarrow>
   stored_ids w' = transferred_ids s' \<and> post_id ` set ps \<subseteq> transferred_ids s'"
proof (induction ps arbitrary: st s w)
  case Nil
  then show ?case by simp
next
  case (Cons p ps)
  obtain st1 s1 w1 where step: "process_post env False sk (st, s, w) p = (st1, s1, w1)"
    by (cases "process_post env False sk (st, s, w) p") auto
  with Cons.prems have rest: "foldl (process_post env False sk) (st1, s1, w1) ps = (st', s', w')"
    by simp
  from process_post_errors_mono [OF step] foldl_process_mono [OF rest] Cons.prems(2)
  have e1: "errors st1 = errors st" and e2: "errors st' = errors st1" by simp_all
  from process_post_no_error [OF step e1 Cons.prems(3)]
  have a: "stored_ids w1 = transferred_ids s1" "post_id p \<in> transferred_ids s1" by simp_all
  from Cons.IH [OF rest e2 a(1)]
  have b: "stored_ids w' = transferred_ids s'" "post_id ` set ps \<subseteq> transferred_ids s'"
    by simp_all
  from foldl_process_mono [OF rest] a(2) have "post_id p \<in> transferred_ids s'" by auto
  with b show ?case by simp
qed

lemma foldl_process_all_skipped:
  "foldl (process_post env d True) (st, s, w) ps = (st', s', w') \<Longrightarrow>
   post_id ` set ps \<subseteq> transferred_ids s \<Longrightarrow>
   transferred st' = transferred st \<and> skipped st' = skipped st + length ps
   \<and> processed st' = processed st + length ps \<and> errors st' = errors st
   \<and> s' = s \<and> w' = w"
proof (induction ps arbitrary: st)
  case Nil
  then show ?case by simp
next
  case (Cons p ps)
  from Cons.prems(2) have p: "post_id p \<in> transferred_ids s" by simp
  then have step: "process_post env d True (st, s, w) p
      = (st\<lparr>processed := processed st + 1, skipped := skipped st + 1\<rparr>, s, w)"
    by (simp add: process_post_def Let_def)
  with Cons.prems have rest: "foldl (process_post env d True)
      (st\<lparr>processed := processed st + 1, skipped := skipped st + 1\<rparr>, s, w) ps = (st', s', w')"
    by simp
  from Cons.prems(2) have "post_id ` set ps \<subseteq> transferred_ids s" by simp
  from Cons.IH [OF rest this] show ?case by simp
qed

lemma transfer_posts_sum:
  "processed (fst (transfer_posts env d sk fetched s w))
     = transferred (fst (transfer_posts env d sk fetched s w))
       + skipped (fst (transfer_posts env d sk fetched s w))
       + errors (fst (transfer_posts env d sk fetched s w))"
proof (cases "fetched = []")
  case True
  then show ?thesis by (simp add: transfer_posts_def zero_stats_def Let_def)
next
  case False
  let ?w0 = "w\<lparr>console := console w @ [Fetching_posts, Found_posts (length fetched)]\<rparr>"
  obtain st' s' w' where
    r: "foldl (process_post env d sk) (zero_stats, s, ?w0) (rev fetched) = (st', s', w')"
    by (cases "foldl (process_post env d sk) (zero_stats, s, ?w0) (rev fetched)") auto
  from foldl_process_sum [OF r]
  have "processed st' = transferred st' + skipped st' + errors st'"
    by (simp add: zero_stats_def)
  with False r show ?thesis by (simp add: transfer_posts_def Let_def)
qed

lemma rerun_skips_all:
  assumes first: "run_transfer env False sk fetched w = (st1, s1, w1)"
    and noerr: "errors st1 = 0"
  shows "transferred st1 + skipped st1 = processed st1
    \<and> transferred (fst (run_transfer env2 d2 True fetched w1)) = 0
    \<and> skipped (fst (run_transfer env2 d2 True fetched w1)) = length fetched
    \<and> processed (fst (run_transfer env2 d2 True fetched w1)) = length fetched
    \<and> errors (fst (run_transfer env2 d2 True fetched w1)) = 0"
proof (cases "fetched = []")
  case True
  with first show ?thesis
    by (auto simp: run_transfer_def transfer_posts_def zero_stats_def Let_def split: prod.splits)
next
  case False
  obtain s0 w0 where l: "load_state env w = (s0, w0)" by (cases "load_state env w")
  let ?w0 = "w0\<lparr>console := console w0 @ [Fetching_posts, Found_posts (length fetched)]\<rparr>"
  from first l False
  have r1: "foldl (process_post env False sk) (zero_stats, s0, ?w0) (rev fetched) = (st1, s1, w1)"
    by (simp add: run_transfer_def transfer_posts_def Let_def)
  have inv0: "stored_ids ?w0 = transferred_ids s0"
    using load_state_ids [of env w] load_state_file [of env w] l
    by (simp add: stored_ids_def)
  from noerr have e: "errors st1 = errors zero_stats" by (simp add: zero_stats_def)
  from foldl_process_no_error [OF r1 e inv0]
  have ids: "stored_ids w1 = transferred_ids s1" "post_id ` set fetched \<subseteq> transferred_ids s1"
    by simp_all
  from foldl_process_sum [OF r1] noerr
  have sum: "transferred st1 + skipped st1 = processed st1" by (simp add: zero_stats_def)
  obtain s2 w2 where l2: "load_state env2 w1 = (s2, w2)" by (cases "load_state env2 w1")
  with load_state_ids [of env2 w1] ids have in2: "post_id ` set (rev fetched) \<subseteq> transferred_ids s2"
    by simp
  let ?w2 = "w2\<lparr>console := console w2 @ [Fetching_posts, Found_posts (length fetched)]\<rparr>"
  obtain st3 s3 w3 where
    r2: "foldl (process_post env2 d2 True) (zero_stats, s2, ?w2) (rev fetched) = (st3, s3, w3)"
    by (cases "foldl (process_post env2 d2 True) (zero_stats, s2, ?w2) (rev fetched)") auto
  from foldl_process_all_skipped [OF r2 in2]
  have "transferred st3 = 0" "skipped st3 = length fetched" "processed st3 = length fetched"
    "errors st3 = 0"
    by (simp_all add: zero_stats_def)
  moreover from l2 r2 False have "fst (run_transfer env2 d2 True fetched w1) = st3"
    by (simp add: run_transfer_def transfer_posts_def Let_def)
  ultimately show ?thesis using sum by simp
qed

text \<open>
  C2, as stated, says transferred + skipped = processed after every run. A post whose
  transfer fails is counted under errors only: with a destination that rejects every
  post, one fetched post gives processed 1, transferred 0, skipped 0, errors 1.
\<close>

theorem failed_post_breaks_sum:
  "processed (fst (run_transfer rejecting_clients False True [simple_post ''a'' 1 ''x''] empty_world)) = 1
   \<and> transferred (fst (run_transfer rejecting_clients False True [simple_post ''a'' 1 ''x''] empty_world)) = 0
   \<and> skipped (fst (run_transfer rejecting_clients False True [simple_post ''a'' 1 ''x''] empty_world)) = 0
   \<and> errors (fst (run_transfer rejecting_clients False True [simple_post ''a'' 1 ''x''] empty_world)) = 1"
  by code_simp

text \<open>
  C2, amended. Every run returns processed = transferred + skipped + errors, so that
  transferred + skipped = processed exactly for the runs without error. When a run that
  is not a dry run ends without error, a second run over the same fetched list with
  skip_existing enabled, started from the world the first one left (whatever the
  collaborators then answer, dry run or not), transfers no post and skips them all.
\<close>

theorem rerun_transfers_nothing:
  assumes first: "run_transfer env False sk fetched w = (st1, s1, w1)"
    and noerr: "errors st1 = 0"
  shows "(\<forall>e dr k f t v.
            processed (fst (transfer_posts e dr k f t v))
              = transferred (fst (transfer_posts e dr k f t v))
                + skipped (fst (transfer_posts e dr k f t v))
                + errors (fst (transfer_posts e dr k f t v)))
    \<and> transferred st1 + skipped st1 = processed st1
    \<and> transferred (fst (run_transfer env2 d2 True fetched w1)) = 0
    \<and> skipped (fst (run_transfer env2 d2 True fetched w1)) = length fetched
    \<and> processed (fst (run_transfer env2 d2 True fetched w1)) = length fetched
    \<and> errors (fst (run_transfer env2 d2 True fetched w1)) = 0"
  using rerun_skips_all [OF first noerr, of env2 d2] transfer_posts_sum by blast

theorem rerun_transfers_nothing_witness:
  "errors (fst (run_transfer ok_clients False True
      [simple_post ''b'' 2 ''y'', simple_post ''a'' 1 ''x''] empty_world)) = 0
   \<and> transferred (fst (run_transfer ok_clients False True
      [simple_post ''b'' 2 ''y'', simple_post ''a'' 1 ''x''] empty_world)) = 2
   \<and> transferred (fst (run_transfer ok_clients False True
        [simple_post ''b'' 2 ''y'', simple_post ''a'' 1 ''x'']
        (snd (snd (run_transfer ok_clients False True
          [simple_post ''b'' 2 ''y'', simple_post ''a'' 1 ''x''] empty_world))))) = 0
   \<and> skipped (fst (run_transfer ok_clients False True
        [simple_post ''b'' 2 ''y'', simple_post ''a'' 1 ''x'']
        (snd (snd (run_transfer ok_clients False True
          [simple_post ''b'' 2 ''y'', simple_post ''a'' 1 ''x''] empty_world))))) = 2"
proof -
  let ?r = "run_transfer ok_clients False True
      [simple_post ''b'' 2 ''y'', simple_post ''a'' 1 ''x''] empty_world"
  have first: "?r = (fst ?r, fst (snd ?r), snd (snd ?r))" by simp
  have noerr: "errors (fst ?r) = 0" by code_simp
  have two: "transferred (fst ?r) = 2" by code_simp
  from rerun_transfers_nothing [OF first noerr, of ok_clients False] noerr two
  show ?thesis by simp
qed





end
